theory Spec2Isabelle
  imports Main "HOL-Library.AList"
begin

section \<open>The element store\<close>

text \<open>
  \<^verbatim>\<open>xml_factory/_xml_factory.py\<close> builds a tree of \<^verbatim>\<open>ElementTree.Element\<close> objects
  and hands out references to them: two facades may wrap the same element, and the
  element returned by a lookup is the object stored in the tree, not a copy.
  The embedding therefore keeps an explicit store. A reference is the index of a
  cell, allocation appends a cell, and every operation takes the store and returns
  the store it leaves behind, also when it raises.

  An element has a tag, a dictionary of attributes (an association list, in
  insertion order as Python dictionaries are), an optional text and the ordered
  list of its children.
\<close>

type_synonym ref = nat

record Element =
  tag :: string
  attrib :: "(string \<times> string) list"
  etext :: "string option"
  children :: "ref list"

type_synonym heap = "Element list"

datatype error =
  TypeError | ValueError | AssertionError | SyntaxError | KeyError | IndexError
  | Unmodelled_ElementPath

type_synonym 'a outcome = "(error + 'a) \<times> heap"

text \<open>\<^verbatim>\<open>ElementTree.Element(tag)\<close>: a fresh element without attributes, text or children.\<close>

definition Element_new :: "string \<Rightarrow> Element" where
  "Element_new t = \<lparr>tag = t, attrib = [], etext = None, children = []\<rparr>"

text \<open>
  \<^verbatim>\<open>ElementTree.SubElement(parent, tag)\<close>: allocates a fresh element and appends it to
  the children of \<open>parent\<close>; returns the new element.
\<close>

definition SubElement :: "heap \<Rightarrow> ref \<Rightarrow> string \<Rightarrow> ref \<times> heap" where
  "SubElement h parent t =
     (length h,
      h[parent := (h ! parent)\<lparr>children := children (h ! parent) @ [length h]\<rparr>] @ [Element_new t])"

text \<open>
  Python keeps every reference alive, so in a store the program can reach every
  child reference points at a cell.
\<close>

definition wf_heap :: "heap \<Rightarrow> bool" where
  "wf_heap h = list_all (\<lambda>e. list_all (\<lambda>c. c < length h) (children e)) h"

section \<open>\<^verbatim>\<open>Element.find\<close>\<close>

text \<open>
  \<^verbatim>\<open>parent.find(i_part)\<close> is the standard library's (CPython 3 with the C
  accelerator). Its argument is a tag name or an ElementPath expression.
  \<open>checkpath\<close> is the accelerator's test for a path: the argument starts with
  \<^verbatim>\<open>{}\<close> or \<^verbatim>\<open>{*}\<close> and has three characters or more, or one of \<^verbatim>\<open>/ * [ @ .\<close> occurs
  in it outside a \<^verbatim>\<open>{...}\<close> part. When the test fails, the tags of the direct children
  are compared with the argument, in document order.
\<close>

fun checkpath_scan :: "bool \<Rightarrow> string \<Rightarrow> bool" where
  "checkpath_scan check [] = False"
| "checkpath_scan check (ch # cs) =
     (if ch = CHR ''{'' then checkpath_scan False cs
      else if ch = CHR ''}'' then checkpath_scan True cs
      else if check \<and> ch \<in> set ''/*[@.'' then True
      else checkpath_scan check cs)"

definition checkpath :: "string \<Rightarrow> bool" where
  "checkpath t =
     ((case t of
         c0 # c1 # c2 # cs \<Rightarrow>
           c0 = CHR ''{'' \<and> (c1 = CHR ''}'' \<or> (c1 = CHR ''*'' \<and> c2 = CHR ''}''))
       | _ \<Rightarrow> False)
      \<or> checkpath_scan True t)"

fun first_child :: "heap \<Rightarrow> ref list \<Rightarrow> string \<Rightarrow> ref option" where
  "first_child h [] t = None"
| "first_child h (c # cs) t = (if tag (h ! c) = t then Some c else first_child h cs t)"

text \<open>
  When the test succeeds, \<^verbatim>\<open>ElementPath.find\<close> evaluates the argument. Its tokenizer
  is the regular expression \<^verbatim>\<open>xpath_tokenizer_re\<close>, applied with \<^verbatim>\<open>findall\<close>: at each
  position, in this order, a quoted string, one of \<^verbatim>\<open>:: // .. () !=\<close>, one of the
  characters \<^verbatim>\<open>/ . * : [ ] ( ) @ =\<close>, a name (an optional \<^verbatim>\<open>{...}\<close> part and then
  characters other than \<^verbatim>\<open>/ [ ] ( ) @ ! =\<close> and white space), or white space; a
  character at which nothing matches is skipped. A token is the pair of the two
  groups of the expression: the first holds an operator, the second a name, and
  white space leaves both empty. Characters are code points below 256.
\<close>

definition is_space :: "char \<Rightarrow> bool" where
  "is_space c =
     (c \<in> set [CHR 0x09, CHR 0x0A, CHR 0x0B, CHR 0x0C, CHR 0x0D, CHR 0x1C, CHR 0x1D,
                CHR 0x1E, CHR 0x1F, CHR 0x20, CHR 0x85, CHR 0xA0])"

definition name_char :: "char \<Rightarrow> bool" where
  "name_char c = (c \<notin> set ''/[]()@!='' \<and> \<not> is_space c)"

function xpath_tokens :: "string \<Rightarrow> (string \<times> string) list" where
  "xpath_tokens [] = []"
| "xpath_tokens (c # s) =
     (if (c = CHR 0x27 \<or> c = CHR 0x22) \<and> c \<in> set s then
        (c # takeWhile (\<lambda>x. x \<noteq> c) s @ [c], []) # xpath_tokens (tl (dropWhile (\<lambda>x. x \<noteq> c) s))
      else if s \<noteq> [] \<and> [c, hd s] \<in> set [''::'', ''//'', ''..'', ''()'', ''!=''] then
        ([c, hd s], []) # xpath_tokens (tl s)
      else if c \<in> set ''/.*:[]()@='' then
        ([c], []) # xpath_tokens s
      else if name_char c then
        (if c = CHR ''{'' \<and> takeWhile (\<lambda>x. x \<noteq> CHR ''}'') s \<noteq> []
            \<and> dropWhile (\<lambda>x. x \<noteq> CHR ''}'') s \<noteq> []
            \<and> takeWhile name_char (tl (dropWhile (\<lambda>x. x \<noteq> CHR ''}'') s)) \<noteq> []
         then
           ([], c # takeWhile (\<lambda>x. x \<noteq> CHR ''}'') s @ CHR ''}''
                  # takeWhile name_char (tl (dropWhile (\<lambda>x. x \<noteq> CHR ''}'') s)))
           # xpath_tokens (dropWhile name_char (tl (dropWhile (\<lambda>x. x \<noteq> CHR ''}'') s)))
         else
           ([], c # takeWhile name_char s) # xpath_tokens (dropWhile name_char s))
      else if is_space c then
        ([], []) # xpath_tokens (dropWhile is_space s)
      else xpath_tokens s)"
  by pat_completeness auto
termination
proof (relation "measure length", goal_cases)
  case 1
  show ?case by simp
next
  case (2 c s)
  have "length (dropWhile (\<lambda>x. x \<noteq> c) s) \<le> length s"
    by (rule length_dropWhile_le)
  then show ?case by simp
next
  case (3 c s)
  show ?case by simp
next
  case (4 c s)
  show ?case by simp
next
  case (5 c s)
  have "length (dropWhile name_char (tl (dropWhile (\<lambda>x. x \<noteq> CHR ''}'') s)))
          \<le> length (tl (dropWhile (\<lambda>x. x \<noteq> CHR ''}'') s))"
    by (rule length_dropWhile_le)
  moreover have "length (dropWhile (\<lambda>x. x \<noteq> CHR ''}'') s) \<le> length s"
    by (rule length_dropWhile_le)
  ultimately show ?case by simp
next
  case (6 c s)
  have "length (dropWhile name_char s) \<le> length s"
    by (rule length_dropWhile_le)
  then show ?case by simp
next
  case (7 c s)
  have "length (dropWhile is_space s) \<le> length s"
    by (rule length_dropWhile_le)
  then show ?case by simp
next
  case (8 c s)
  show ?case by simp
qed

declare xpath_tokens.simps(2) [simp del]

text \<open>
  A name token selects children by a test on their tag (\<^verbatim>\<open>prepare_child\<close>). The test
  is equality with the name, after a leading \<^verbatim>\<open>{}\<close> is dropped, unless the name is
  a namespace wildcard: \<^verbatim>\<open>{*}*\<close> accepts every tag, \<^verbatim>\<open>{}*\<close> every tag that does not
  start with \<^verbatim>\<open>{\<close> (and raises \<^verbatim>\<open>IndexError\<close> on an empty tag), \<^verbatim>\<open>{*}name\<close> the tag
  \<^verbatim>\<open>name\<close> and every tag that ends with \<^verbatim>\<open>}name\<close>, and \<^verbatim>\<open>ns}*\<close> every tag that starts with
  \<^verbatim>\<open>ns}\<close>.
\<close>

definition tag_test :: "string \<Rightarrow> string \<Rightarrow> error + bool" where
  "tag_test t el =
     (if t = ''{*}*'' then Inr True
      else if t = ''{}*'' then (if el = [] then Inl IndexError else Inr (hd el \<noteq> CHR ''{''))
      else if take 3 t = ''{*}'' then
        Inr (el = drop 3 t \<or> drop (length el - length (drop 2 t)) el = drop 2 t)
      else if drop (length t - 2) t = ''}*'' then
        Inr (take (length t - 1) el = take (length t - 1) t)
      else Inr (el = (if take 2 t = ''{}'' then drop 2 t else t)))"

text \<open>
  The tokens are turned into steps one after the other (\<^verbatim>\<open>ops\<close>): a name token is a
  step to the children that pass its test, \<^verbatim>\<open>*\<close> a step to all children, \<^verbatim>\<open>.\<close> no
  step, \<^verbatim>\<open>..\<close> the step to the parent. A name with a colon and no \<^verbatim>\<open>{...}\<close> part
  raises \<^verbatim>\<open>SyntaxError\<close> (there is no prefix map), and any other operator raises
  \<^verbatim>\<open>KeyError\<close>. The model stops at a predicate \<^verbatim>\<open>[...]\<close>, at \<^verbatim>\<open>..\<close> after another
  step and at a slash (a segment has none): its outcome there is
  \<open>Unmodelled_ElementPath\<close>, which is no statement about the program.
\<close>

datatype step = Child string | Star | Self | Parent

fun prepare :: "bool \<Rightarrow> (string \<times> string) list \<Rightarrow> error + step list" where
  "prepare first [] = Inr []"
| "prepare first ((ttype, name) # toks) =
     (if name \<noteq> [] \<and> hd name \<noteq> CHR ''{'' \<and> CHR '':'' \<in> set name then Inl SyntaxError
      else if ttype = [] then map_sum id ((#) (Child name)) (prepare False toks)
      else if ttype = ''*'' then map_sum id ((#) Star) (prepare False toks)
      else if ttype = ''.'' then map_sum id ((#) Self) (prepare False toks)
      else if ttype = ''..'' then
        (if first then map_sum id ((#) Parent) (prepare False toks)
         else Inl Unmodelled_ElementPath)
      else if ttype = ''['' \<or> ttype = ''//'' \<or> ttype = ''/'' then Inl Unmodelled_ElementPath
      else Inl KeyError)"

text \<open>
  The steps are generators, run one element at a time, and \<^verbatim>\<open>find\<close> takes the first
  element that comes out: an element whose test raises does so only if no result
  comes before it. A list of results therefore holds, in order, elements and the
  places where a test raises. Seen from the element \<^verbatim>\<open>find\<close> is called on, that
  element has no parent (the store has no cycle).
\<close>

fun select :: "heap \<Rightarrow> step \<Rightarrow> (error + ref) list \<Rightarrow> (error + ref) list" where
  "select h st [] = []"
| "select h st (Inl e # items) = Inl e # select h st items"
| "select h (Child t) (Inr el # items) =
     concat (map (\<lambda>c. case tag_test t (tag (h ! c)) of
                         Inl e \<Rightarrow> [Inl e]
                       | Inr ok \<Rightarrow> (if ok then [Inr c] else []))
                 (children (h ! el)))
     @ select h (Child t) items"
| "select h Star (Inr el # items) = map Inr (children (h ! el)) @ select h Star items"
| "select h Self (Inr el # items) = Inr el # select h Self items"
| "select h Parent (Inr el # items) = select h Parent items"

definition ElementPath_find :: "heap \<Rightarrow> ref \<Rightarrow> string \<Rightarrow> error + ref option" where
  "ElementPath_find h elem path =
     (if CHR ''/'' \<in> set path then Inl Unmodelled_ElementPath
      else if xpath_tokens path = [] then Inl TypeError
      else
        (case prepare True (xpath_tokens path) of
           Inl e \<Rightarrow> Inl e
         | Inr selector \<Rightarrow>
             (case foldl (\<lambda>result st. select h st result) [Inr elem] selector of
                [] \<Rightarrow> Inr None
              | Inl e # items \<Rightarrow> Inl e
              | Inr r # items \<Rightarrow> Inr (Some r))))"

definition find_el :: "heap \<Rightarrow> ref \<Rightarrow> string \<Rightarrow> error + ref option" where
  "find_el h parent path =
     (if checkpath path then ElementPath_find h parent path
      else Inr (first_child h (children (h ! parent)) path))"

section \<open>Python strings and values\<close>

text \<open>
  \<^verbatim>\<open>s.split(sep)\<close> for a one-character separator: the pieces between the separators,
  empty pieces included; a string without the separator is its only piece.
  \<^verbatim>\<open>s.rsplit(sep)\<close> without a limit gives the same list.
\<close>

fun py_split :: "char \<Rightarrow> string \<Rightarrow> string list" where
  "py_split sep [] = [[]]"
| "py_split sep (c # cs) =
     (if c = sep then [] # py_split sep cs
      else (case py_split sep cs of [] \<Rightarrow> [[c]] | p # ps \<Rightarrow> (c # p) # ps))"

definition rsplit :: "char \<Rightarrow> string \<Rightarrow> string list" where
  "rsplit sep s = py_split sep s"

definition endswith :: "string \<Rightarrow> char \<Rightarrow> bool" where
  "endswith s c = (s \<noteq> [] \<and> last s = c)"

text \<open>
  The values assigned through the facade, and their string form \<^verbatim>\<open>str(value)\<close>
  (\<^verbatim>\<open>six.text_type\<close> is \<^verbatim>\<open>str\<close> on Python 3).
\<close>

datatype pyvalue = PyStr string | PyInt int | PyBool bool | PyNone

fun decimal :: "nat \<Rightarrow> string" where
  "decimal n =
     (if n < 10 then [''0123456789'' ! n]
      else decimal (n div 10) @ [''0123456789'' ! (n mod 10)])"

declare decimal.simps [simp del]

fun str :: "pyvalue \<Rightarrow> string" where
  "str (PyStr s) = s"
| "str (PyInt i) = (if i < 0 then CHR ''-'' # decimal (nat (- i)) else decimal (nat i))"
| "str (PyBool b) = (if b then ''True'' else ''False'')"
| "str PyNone = ''None''"

definition text_type :: "pyvalue \<Rightarrow> string" where
  "text_type v = str v"

section \<open>The facade\<close>

record XmlFactory =
  root :: ref

text \<open>The argument of the constructor: a string, an element, or any other object.\<close>

datatype root_argument = Tag_name string | Existing ref | Other_object

definition init :: "heap \<Rightarrow> root_argument \<Rightarrow> XmlFactory outcome" where
  "init h root_element =
     (case root_element of
        Tag_name s \<Rightarrow> (Inr \<lparr>root = length h\<rparr>, h @ [Element_new s])
      | Existing r \<Rightarrow> (Inr \<lparr>root = r\<rparr>, h)
      | Other_object \<Rightarrow> (Inl TypeError, h))"

text \<open>
  The loop of \<^verbatim>\<open>_ObtainElement\<close> over the parts of the path. After the last part the
  result is the last parent.
\<close>

fun ObtainElement_loop :: "heap \<Rightarrow> ref \<Rightarrow> string list \<Rightarrow> ref outcome" where
  "ObtainElement_loop h parent [] = (Inr parent, h)"
| "ObtainElement_loop h parent (i_part # parts) =
     (if endswith i_part CHR ''+'' then
        (case SubElement h parent (butlast i_part) of
           (result, h') \<Rightarrow> ObtainElement_loop h' result parts)
      else
        (case find_el h parent i_part of
           Inl e \<Rightarrow> (Inl e, h)
         | Inr (Some result) \<Rightarrow> ObtainElement_loop h result parts
         | Inr None \<Rightarrow>
             (case SubElement h parent i_part of
                (result, h') \<Rightarrow> ObtainElement_loop h' result parts)))"

definition ObtainElement :: "heap \<Rightarrow> XmlFactory \<Rightarrow> string \<Rightarrow> ref outcome" where
  "ObtainElement h self name =
     (if name = [] then (Inr (root self), h)
      else ObtainElement_loop h (root self) (py_split CHR ''/'' name))"

definition setitem :: "heap \<Rightarrow> XmlFactory \<Rightarrow> string \<Rightarrow> pyvalue \<Rightarrow> XmlFactory outcome" where
  "setitem h self name v =
     (if CHR ''@'' \<in> set name then
        (case rsplit CHR ''@'' name of
           [element_name, attr_name] \<Rightarrow>
             (case ObtainElement h self element_name of
                (Inl e, h') \<Rightarrow> (Inl e, h')
              | (Inr result, h') \<Rightarrow>
                  init (h'[result := (h' ! result)
                          \<lparr>attrib := AList.update attr_name (str v) (attrib (h' ! result))\<rparr>])
                       (Existing result))
         | _ \<Rightarrow> (Inl ValueError, h))
      else
        (case ObtainElement h self name of
           (Inl e, h') \<Rightarrow> (Inl e, h')
         | (Inr result, h') \<Rightarrow>
             init (h'[result := (h' ! result)\<lparr>etext := Some (text_type v)\<rparr>])
                  (Existing result)))"

definition getitem :: "heap \<Rightarrow> XmlFactory \<Rightarrow> string \<Rightarrow> XmlFactory outcome" where
  "getitem h self name =
     (if CHR ''@'' \<in> set name then (Inl AssertionError, h)
      else (case ObtainElement h self name of
              (Inl e, h') \<Rightarrow> (Inl e, h')
            | (Inr result, h') \<Rightarrow> init h' (Existing result)))"

section \<open>Printing\<close>

text \<open>
  \<^verbatim>\<open>WritePrettyXMLElement\<close> belongs to the module \<^verbatim>\<open>_pretty_xml\<close>, which is not among
  the sources at hand. It is a parameter here: the text it writes for the tree
  below an element. A stream is the text written to it so far, and \<^verbatim>\<open>write\<close>
  appends.
\<close>

definition xml_declaration :: string where
  "xml_declaration = ''<?xml version='' @ [CHR 0x22] @ ''1.0'' @ [CHR 0x22] @ '' ?>'' @ [CHR 0x0A]"

definition Print :: "(heap \<Rightarrow> ref \<Rightarrow> string) \<Rightarrow> heap \<Rightarrow> XmlFactory \<Rightarrow> string \<Rightarrow> bool \<Rightarrow> string" where
  "Print WritePrettyXMLElement h self oss xml_header =
     (let oss' = (if xml_header then oss @ xml_declaration else oss)
      in oss' @ WritePrettyXMLElement h (root self))"

definition GetContents :: "(heap \<Rightarrow> ref \<Rightarrow> string) \<Rightarrow> heap \<Rightarrow> XmlFactory \<Rightarrow> bool \<Rightarrow> string" where
  "GetContents WritePrettyXMLElement h self xml_header =
     Print WritePrettyXMLElement h self [] xml_header"

section \<open>Stores used as concrete inputs\<close>

definition root_only :: heap where
  "root_only = [Element_new ''root'']"

definition root_with_a :: heap where
  "root_with_a = [(Element_new ''root'')\<lparr>children := [1]\<rparr>, Element_new ''a'']"

section \<open>Kinds of lookup\<close>

text \<open>
  For many segments the result of \<^verbatim>\<open>find\<close> is the element itself, or the first
  direct child whose tag passes a test that depends on the segment only.
  \<open>lookup_of\<close> gives that kind when the segment has one: \<open>Exact s\<close> when the tags
  are compared with the segment (no path character), and otherwise, with the \<^verbatim>\<open>.\<close>
  steps left out, \<open>Itself\<close> for no step, \<open>First\<close> for the one step \<^verbatim>\<open>*\<close>, and
  \<open>Test t\<close> for the one step of a name \<open>t\<close> whose test cannot raise.
\<close>

datatype lookup = Itself | Exact string | Test string | First

definition lookup_of :: "string \<Rightarrow> lookup option" where
  "lookup_of s =
     (if \<not> checkpath s then Some (Exact s)
      else if CHR ''/'' \<in> set s \<or> xpath_tokens s = [] then None
      else
        (case prepare True (xpath_tokens s) of
           Inl e \<Rightarrow> None
         | Inr selector \<Rightarrow>
             (case filter (\<lambda>st. st \<noteq> Self) selector of
                [] \<Rightarrow> Some Itself
              | [Star] \<Rightarrow> Some First
              | [Child t] \<Rightarrow> (if t = ''{}*'' then None else Some (Test t))
              | _ \<Rightarrow> None)))"

fun passes :: "lookup \<Rightarrow> string \<Rightarrow> bool" where
  "passes Itself el = True"
| "passes (Exact s) el = (el = s)"
| "passes (Test t) el = (tag_test t el = Inr True)"
| "passes First el = True"

fun first_by :: "heap \<Rightarrow> ref list \<Rightarrow> (string \<Rightarrow> bool) \<Rightarrow> ref option" where
  "first_by h [] P = None"
| "first_by h (c # cs) P = (if P (tag (h ! c)) then Some c else first_by h cs P)"

definition look :: "heap \<Rightarrow> ref \<Rightarrow> lookup \<Rightarrow> ref option" where
  "look h p l = (if l = Itself then Some p else first_by h (children (h ! p)) (passes l))"

text \<open>
  \<open>tag_lookup s\<close>: \<^verbatim>\<open>find\<close> returns the first direct child whose tag is the segment
  \<open>s\<close> itself. That is so when \<open>s\<close> has no path character, and when ElementPath
  reads the whole of \<open>s\<close> as one name that is no wildcard and has no leading
  \<^verbatim>\<open>{}\<close> (as \<^verbatim>\<open>bravo.one\<close>).
  \<open>reusable s\<close>: \<open>s\<close> has no force marker, and \<^verbatim>\<open>find\<close> returns the element itself,
  or the first direct child whose tag passes a test that the tag \<open>s\<close> passes too.
  \<open>resolvable s\<close>: \<open>s\<close> has the force marker, or \<^verbatim>\<open>find\<close> returns for \<open>s\<close> in every
  store (the model evaluates the path, and no step of it has the test \<^verbatim>\<open>{}*\<close>).
\<close>

definition tag_lookup :: "string \<Rightarrow> bool" where
  "tag_lookup s =
     (lookup_of s = Some (Exact s) \<or>
      (lookup_of s = Some (Test s) \<and> take 3 s \<noteq> ''{*}'' \<and>
       drop (length s - 2) s \<noteq> ''}*'' \<and> take 2 s \<noteq> ''{}''))"

definition reusable :: "string \<Rightarrow> bool" where
  "reusable s =
     (\<not> endswith s CHR ''+'' \<and> (case lookup_of s of None \<Rightarrow> False | Some l \<Rightarrow> passes l s))"

definition finds :: "string \<Rightarrow> bool" where
  "finds s =
     (\<not> checkpath s \<or>
      (CHR ''/'' \<notin> set s \<and> xpath_tokens s \<noteq> [] \<and>
       (case prepare True (xpath_tokens s) of
          Inl e \<Rightarrow> False
        | Inr selector \<Rightarrow> Child ''{}*'' \<notin> set selector)))"

definition resolvable :: "string \<Rightarrow> bool" where
  "resolvable s = (endswith s CHR ''+'' \<or> finds s)"

section \<open>Relations between stores\<close>

text \<open>
  \<open>grows h g\<close>: the store \<open>g\<close> has every cell of \<open>h\<close> with the same tag, and
  each list of children of \<open>h\<close> is an initial part of the list in \<open>g\<close>.
  \<open>keeps h g\<close>: the cells of \<open>h\<close> have the same text and attributes in \<open>g\<close>, and
  the cells \<open>g\<close> adds have neither. \<open>fresh_from N h\<close>: the children of a cell
  at or above \<open>N\<close> are at or above \<open>N\<close>.
\<close>

definition grows :: "heap \<Rightarrow> heap \<Rightarrow> bool" where
  "grows h g =
     (length h \<le> length g \<and>
      (\<forall>i<length h. tag (g ! i) = tag (h ! i) \<and> (\<exists>ys. children (g ! i) = children (h ! i) @ ys)))"



section \<open>Splitting strings\<close>

lemma py_split_not_Nil: "py_split sep s \<noteq> []"
  by (induction s) (auto split: list.splits)

lemma py_split_no_sep: "sep \<notin> set s \<Longrightarrow> py_split sep s = [s]"
  by (induction s) auto

lemma py_split_append_sep:
  "sep \<notin> set a \<Longrightarrow> py_split sep (a @ sep # b) = a # py_split sep b"
  by (induction a) auto

lemma length_py_split: "length (py_split sep s) = Suc (count_list s sep)"
  by (induction s) (auto split: list.splits)

lemma rsplit_one_marker:
  "sep \<notin> set e \<Longrightarrow> sep \<notin> set a \<Longrightarrow> rsplit sep (e @ sep # a) = [e, a]"
  by (simp add: rsplit_def py_split_append_sep py_split_no_sep)

lemma length_ge_three:
  assumes "3 \<le> length xs"
  shows "\<exists>x y z zs. xs = x # y # z # zs"
proof -
  from assms obtain x xs1 where 1: "xs = x # xs1" "2 \<le> length xs1"
    by (cases xs) auto
  then obtain y xs2 where 2: "xs1 = y # xs2" "1 \<le> length xs2"
    by (cases xs1) auto
  then obtain z zs where 3: "xs2 = z # zs"
    by (cases xs2) auto
  from 1 2 3 show ?thesis by blast
qed

lemma rsplit_many_markers:
  "2 \<le> count_list name sep \<Longrightarrow> \<exists>x y z zs. rsplit sep name = x # y # z # zs"
  by (rule length_ge_three) (simp add: rsplit_def length_py_split)

section \<open>Children and lookups\<close>

lemma wf_heap_iff:
  "wf_heap h \<longleftrightarrow> (\<forall>i<length h. \<forall>c\<in>set (children (h ! i)). c < length h)"
  unfolding wf_heap_def list_all_iff
  by (metis in_set_conv_nth)

lemma wf_heap_children:
  "wf_heap h \<Longrightarrow> p < length h \<Longrightarrow> c \<in> set (children (h ! p)) \<Longrightarrow> c < length h"
  by (simp add: wf_heap_iff)

lemma nth_update_cell: "h[p := x] ! i = (if i = p \<and> p < length h then x else h ! i)"
  by (cases "p < length h") (auto simp: nth_list_update list_update_beyond)

lemma length_SubElement: "length (snd (SubElement h p t)) = Suc (length h)"
  by (simp add: SubElement_def)

lemma first_child_None_iff:
  "first_child h cs t = None \<longleftrightarrow> (\<forall>c\<in>set cs. tag (h ! c) \<noteq> t)"
  by (induction cs) auto

lemma first_child_Some:
  "first_child h cs t = Some c \<Longrightarrow>
     \<exists>i<length cs. cs ! i = c \<and> tag (h ! c) = t \<and> (\<forall>j<i. tag (h ! (cs ! j)) \<noteq> t)"
proof (induction cs)
  case Nil
  then show ?case by simp
next
  case (Cons x xs)
  show ?case
  proof (cases "tag (h ! x) = t")
    case True
    with Cons.prems have "c = x" by simp
    with True show ?thesis by (intro exI[of _ 0]) simp
  next
    case False
    with Cons obtain i where i: "i < length xs" "xs ! i = c" "tag (h ! c) = t"
      "\<forall>j<i. tag (h ! (xs ! j)) \<noteq> t" by auto
    show ?thesis
    proof (intro exI[of _ "Suc i"] conjI allI impI)
      fix j assume "j < Suc i"
      then show "tag (h ! ((x # xs) ! j)) \<noteq> t"
        using False i(4) by (cases j) auto
    qed (use i in auto)
  qed
qed

lemma first_child_in_set: "first_child h cs t = Some c \<Longrightarrow> c \<in> set cs"
  by (induction cs) (auto split: if_splits)

lemma first_child_first_by: "first_child h cs s = first_by h cs (\<lambda>el. el = s)"
  by (induction cs) auto

lemma first_by_in_set: "first_by h cs P = Some c \<Longrightarrow> c \<in> set cs \<and> P (tag (h ! c))"
  by (induction cs) (auto split: if_splits)

lemma first_by_None_iff: "first_by h cs P = None \<longleftrightarrow> (\<forall>c\<in>set cs. \<not> P (tag (h ! c)))"
  by (induction cs) auto

lemma first_by_filter:
  "(case map Inr (filter (\<lambda>c. P (tag (h ! c))) cs) of
      [] \<Rightarrow> Inr None | Inl e # items \<Rightarrow> Inl e | Inr r # items \<Rightarrow> Inr (Some r))
   = (Inr (first_by h cs P) :: error + ref option)"
  by (induction cs) auto

section \<open>The steps of a path\<close>

lemma select_Self: "select h Self items = items"
  by (induction h Self items rule: select.induct) auto

lemma foldl_select_without_Self:
  "foldl (\<lambda>result st. select h st result) items (filter (\<lambda>st. st \<noteq> Self) selector)
     = foldl (\<lambda>result st. select h st result) items selector"
  by (induction selector arbitrary: items) (auto simp: select_Self)

lemma select_Star_one: "select h Star [Inr p] = map Inr (children (h ! p))"
  by simp

lemma tag_test_total: "t \<noteq> ''{}*'' \<Longrightarrow> \<exists>b. tag_test t el = Inr b"
  by (auto simp: tag_test_def)

lemma select_Child_one:
  assumes "t \<noteq> ''{}*''"
  shows "select h (Child t) [Inr p]
           = map Inr (filter (\<lambda>c. tag_test t (tag (h ! c)) = Inr True) (children (h ! p)))"
proof -
  have "concat (map (\<lambda>c. case tag_test t (tag (h ! c)) of
                         Inl e \<Rightarrow> [Inl e]
                       | Inr ok \<Rightarrow> (if ok then [Inr c] else [])) cs)
          = map Inr (filter (\<lambda>c. tag_test t (tag (h ! c)) = Inr True) cs)" for cs
  proof (induction cs)
    case Nil
    then show ?case by simp
  next
    case (Cons c cs)
    obtain b where "tag_test t (tag (h ! c)) = Inr b"
      using tag_test_total[OF assms] by blast
    with Cons show ?case by simp
  qed
  then show ?thesis by simp
qed

text \<open>A property of the element \<^verbatim>\<open>find\<close> starts from that passes on to children holds
  of every element a path selects.\<close>

lemma select_closed:
  assumes "\<forall>r. Inr r \<in> set items \<longrightarrow> Q r"
    and step: "\<And>r c. Q r \<Longrightarrow> c \<in> set (children (h ! r)) \<Longrightarrow> Q c"
  shows "\<forall>r. Inr r \<in> set (select h st items) \<longrightarrow> Q r"
  using assms(1)
proof (induction items)
  case Nil
  show ?case by simp
next
  case (Cons x items)
  have rest: "\<forall>r. Inr r \<in> set (select h st items) \<longrightarrow> Q r"
    using Cons by simp
  show ?case
  proof (cases x)
    case (Inl e)
    with rest show ?thesis by simp
  next
    case (Inr el)
    have "Q el" using Cons.prems Inr by simp
    then have kids: "\<forall>c\<in>set (children (h ! el)). Q c"
      using step by blast
    show ?thesis
    proof (cases st)
      case (Child t)
      have one: "r = c" if "Inr r \<in> set (case tag_test t (tag (h ! c)) of
                         Inl e \<Rightarrow> [Inl e]
                       | Inr ok \<Rightarrow> (if ok then [Inr c] else []))" for r c
        using that by (cases "tag_test t (tag (h ! c))") (auto split: if_splits)
      have "\<forall>r. Inr r \<in> set (concat (map (\<lambda>c. case tag_test t (tag (h ! c)) of
                         Inl e \<Rightarrow> [Inl e]
                       | Inr ok \<Rightarrow> (if ok then [Inr c] else []))
                 (children (h ! el)))) \<longrightarrow> Q r"
        using kids one by fastforce
      with rest Inr Child show ?thesis by auto
    next
      case Star
      with kids rest Inr show ?thesis by auto
    next
      case Self
      with \<open>Q el\<close> rest Inr show ?thesis by auto
    next
      case Parent
      with rest Inr show ?thesis by auto
    qed
  qed
qed

lemma foldl_select_closed:
  assumes "\<forall>r. Inr r \<in> set items \<longrightarrow> Q r"
    and "\<And>r c. Q r \<Longrightarrow> c \<in> set (children (h ! r)) \<Longrightarrow> Q c"
  shows "\<forall>r. Inr r \<in> set (foldl (\<lambda>result st. select h st result) items selector) \<longrightarrow> Q r"
  using assms(1)
proof (induction selector arbitrary: items)
  case Nil
  then show ?case by simp
next
  case (Cons st selector)
  have "\<forall>r. Inr r \<in> set (select h st items) \<longrightarrow> Q r"
  proof (rule select_closed)
    show "\<forall>r. Inr r \<in> set items \<longrightarrow> Q r" by (rule Cons.prems)
    show "\<And>r c. Q r \<Longrightarrow> c \<in> set (children (h ! r)) \<Longrightarrow> Q c" by (rule assms(2))
  qed
  from Cons.IH[OF this] show ?case by simp
qed

lemma find_el_closed:
  assumes "find_el h p s = Inr (Some c)" and "Q p"
    and step: "\<And>r c. Q r \<Longrightarrow> c \<in> set (children (h ! r)) \<Longrightarrow> Q c"
  shows "Q c"
proof (cases "checkpath s")
  case False
  with assms(1) have "first_child h (children (h ! p)) s = Some c"
    by (simp add: find_el_def)
  then have "c \<in> set (children (h ! p))"
    by (rule first_child_in_set)
  with assms(2) step show ?thesis by blast
next
  case True
  with assms(1) obtain selector where
    res: "(case foldl (\<lambda>result st. select h st result) [Inr p] selector of
            [] \<Rightarrow> Inr None | Inl e # items \<Rightarrow> Inl e | Inr r # items \<Rightarrow> Inr (Some r))
          = (Inr (Some c) :: error + ref option)"
    by (auto simp: find_el_def ElementPath_find_def split: if_splits sum.splits)
  have all: "\<forall>r. Inr r \<in> set (foldl (\<lambda>result st. select h st result) [Inr p] selector) \<longrightarrow> Q r"
    by (rule foldl_select_closed) (use assms(2) step in auto)
  from res have "Inr c \<in> set (foldl (\<lambda>result st. select h st result) [Inr p] selector)"
    by (auto split: list.splits sum.splits)
  with all show ?thesis by blast
qed

lemma find_el_valid:
  "wf_heap h \<Longrightarrow> p < length h \<Longrightarrow> find_el h p s = Inr (Some c) \<Longrightarrow> c < length h"
  by (rule find_el_closed[where Q = "\<lambda>r. r < length h"]) (auto simp: wf_heap_iff)

lemma select_no_error:
  assumes "\<forall>x\<in>set items. \<exists>r. x = Inr r" and st: "st \<noteq> Child ''{}*''"
  shows "\<forall>x\<in>set (select h st items). \<exists>r. x = Inr r"
  using assms(1)
proof (induction items)
  case Nil
  show ?case by simp
next
  case (Cons x items)
  have rest: "\<forall>x\<in>set (select h st items). \<exists>r. x = Inr r"
    using Cons by simp
  from Cons.prems obtain el where x: "x = Inr el" by auto
  show ?case
  proof (cases st)
    case (Child t)
    with st have t: "t \<noteq> ''{}*''" by simp
    have "select h (Child t) (Inr el # items)
            = select h (Child t) [Inr el] @ select h (Child t) items"
      by simp
    moreover have "\<forall>x\<in>set (select h (Child t) [Inr el]). \<exists>r. x = Inr r"
      unfolding select_Child_one[OF t] by auto
    ultimately show ?thesis
      using rest x Child by (simp del: select.simps) blast
  next
    case Star
    with rest x show ?thesis by auto
  next
    case Self
    with rest x show ?thesis by auto
  next
    case Parent
    with rest x show ?thesis by auto
  qed
qed

lemma foldl_select_no_error:
  assumes "\<forall>x\<in>set items. \<exists>r. x = Inr r" and "Child ''{}*'' \<notin> set selector"
  shows "\<forall>x\<in>set (foldl (\<lambda>result st. select h st result) items selector). \<exists>r. x = Inr r"
  using assms
proof (induction selector arbitrary: items)
  case Nil
  then show ?case by simp
next
  case (Cons st selector)
  have st: "st \<noteq> Child ''{}*''" and rest: "Child ''{}*'' \<notin> set selector"
    using Cons.prems(2) by auto
  have "\<forall>x\<in>set (select h st items). \<exists>r. x = Inr r"
    by (rule select_no_error[OF Cons.prems(1) st])
  from Cons.IH[OF this rest] show ?case by simp
qed

lemma finds_returns:
  assumes "finds s"
  shows "\<exists>r. find_el h p s = Inr r"
proof (cases "checkpath s")
  case False
  then show ?thesis by (simp add: find_el_def)
next
  case True
  with assms obtain selector where sel: "prepare True (xpath_tokens s) = Inr selector"
    and ok: "Child ''{}*'' \<notin> set selector" and s: "CHR ''/'' \<notin> set s" "xpath_tokens s \<noteq> []"
    by (auto simp: finds_def split: sum.splits)
  let ?items = "foldl (\<lambda>result st. select h st result) [Inr p] selector"
  have "\<forall>x\<in>set ?items. \<exists>r. x = Inr r"
    by (rule foldl_select_no_error) (use ok in auto)
  then have "\<exists>r. (case ?items of [] \<Rightarrow> Inr None | Inl e # items \<Rightarrow> Inl e
                     | Inr r # items \<Rightarrow> Inr (Some r)) = (Inr r :: error + ref option)"
    by (cases ?items) (auto split: sum.splits)
  with True sel s show ?thesis
    by (simp add: find_el_def ElementPath_find_def)
qed

lemma find_el_lookup:
  assumes "lookup_of s = Some l"
  shows "find_el h p s = Inr (look h p l)"
proof (cases "checkpath s")
  case False
  with assms have "l = Exact s" by (simp add: lookup_of_def)
  with False show ?thesis
    by (simp add: find_el_def look_def first_child_first_by) (metis passes.simps(2))
next
  case True
  with assms obtain selector where sel: "prepare True (xpath_tokens s) = Inr selector"
    and s: "CHR ''/'' \<notin> set s" "xpath_tokens s \<noteq> []"
    and core: "(case filter (\<lambda>st. st \<noteq> Self) selector of
                  [] \<Rightarrow> Some Itself
                | [Star] \<Rightarrow> Some First
                | [Child t] \<Rightarrow> (if t = ''{}*'' then None else Some (Test t))
                | _ \<Rightarrow> None) = Some l"
    by (auto simp: lookup_of_def split: if_splits sum.splits)
  let ?core = "filter (\<lambda>st. st \<noteq> Self) selector"
  let ?items = "foldl (\<lambda>result st. select h st result) [Inr p] selector"
  have items: "?items = foldl (\<lambda>result st. select h st result) [Inr p] ?core"
    by (simp add: foldl_select_without_Self)
  have find: "find_el h p s =
      (case ?items of [] \<Rightarrow> Inr None | Inl e # items \<Rightarrow> Inl e | Inr r # items \<Rightarrow> Inr (Some r))"
    using True sel s by (simp add: find_el_def ElementPath_find_def)
  consider (itself) "?core = []" "l = Itself"
    | (first) "?core = [Star]" "l = First"
    | (test) t where "?core = [Child t]" "t \<noteq> ''{}*''" "l = Test t"
    using core by (auto split: list.splits step.splits if_splits)
  then show ?thesis
  proof cases
    case itself
    then show ?thesis
      unfolding find items by (simp add: look_def)
  next
    case first
    have "?items = map Inr (filter (\<lambda>c. True) (children (h ! p)))"
      unfolding items first(1) by simp
    then show ?thesis
      unfolding find using first_by_filter[of "\<lambda>el. True" h "children (h ! p)"] first(2)
      by (simp add: look_def) (metis passes.simps(4))
  next
    case test
    have "?items = map Inr (filter (\<lambda>c. tag_test t (tag (h ! c)) = Inr True) (children (h ! p)))"
      unfolding items test(1) using select_Child_one[OF test(2)] by simp
    then show ?thesis
      unfolding find
      using first_by_filter[of "\<lambda>el. tag_test t el = Inr True" h "children (h ! p)"] test(3)
      by (simp add: look_def) (metis passes.simps(3))
  qed
qed

lemma tag_lookup_first_child:
  assumes "tag_lookup s"
  shows "find_el h p s = Inr (first_child h (children (h ! p)) s)"
proof -
  from assms consider "lookup_of s = Some (Exact s)"
    | "lookup_of s = Some (Test s)" "take 3 s \<noteq> ''{*}''" "drop (length s - 2) s \<noteq> ''}*''"
      "take 2 s \<noteq> ''{}''"
    by (auto simp: tag_lookup_def)
  then show ?thesis
  proof cases
    case 1
    from find_el_lookup[OF this] show ?thesis
      by (simp add: look_def first_child_first_by) (metis passes.simps(2))
  next
    case 2
    have "s \<noteq> ''{*}*''" "s \<noteq> ''{}*''"
      using 2(2,4) by auto
    with 2 have "\<And>el. tag_test s el = Inr (el = s)"
      by (simp add: tag_test_def)
    then have "passes (Test s) = (\<lambda>el. el = s)"
      by auto
    with find_el_lookup[OF 2(1)] show ?thesis
      by (simp add: look_def first_child_first_by)
  qed
qed

lemma reusable_lookup:
  assumes "reusable s"
  obtains l where "lookup_of s = Some l" "passes l s" "\<not> endswith s CHR ''+''"
  using assms by (auto simp: reusable_def split: option.splits)

lemma tag_lookup_reusable: "tag_lookup s \<Longrightarrow> \<not> endswith s CHR ''+'' \<Longrightarrow> reusable s"
  by (auto simp: tag_lookup_def reusable_def tag_test_def)

lemma reusable_finds:
  assumes "reusable s"
  shows "\<exists>r. find_el h p s = Inr r"
proof -
  from assms obtain l where "lookup_of s = Some l"
    by (rule reusable_lookup)
  from find_el_lookup[OF this] show ?thesis by blast
qed

section \<open>What a resolution does to the store\<close>

text \<open>One step of the loop, as a rule: either the loop stops with an error and the store
  as it is, or it goes on from an existing element in the same store, or it goes on from a
  fresh child.\<close>

lemma loop_step_cases:
  assumes "ObtainElement_loop h p (s # parts) = (res, h')"
  obtains (error) e where "find_el h p s = Inl e" "res = Inl e" "h' = h" "\<not> endswith s CHR ''+''"
  | (found) c where "find_el h p s = Inr (Some c)" "\<not> endswith s CHR ''+''"
      "ObtainElement_loop h c parts = (res, h')"
  | (created) t where "ObtainElement_loop (snd (SubElement h p t)) (length h) parts = (res, h')"
proof (cases "endswith s CHR ''+''")
  case True
  with assms have "ObtainElement_loop (snd (SubElement h p (butlast s))) (length h) parts = (res, h')"
    by (simp add: SubElement_def)
  then show ?thesis by (rule created)
next
  case False
  show ?thesis
  proof (cases "find_el h p s")
    case (Inl e)
    with False assms show ?thesis by (intro error[of e]) auto
  next
    case (Inr r)
    show ?thesis
    proof (cases r)
      case None
      with Inr False assms have "ObtainElement_loop (snd (SubElement h p s)) (length h) parts = (res, h')"
        by (simp add: SubElement_def)
      then show ?thesis by (rule created)
    next
      case (Some c)
      with Inr False assms show ?thesis by (intro found[of c]) auto
    qed
  qed
qed

lemma grows_refl: "grows h h"
  by (simp add: grows_def)

lemma grows_trans: "grows h g \<Longrightarrow> grows g k \<Longrightarrow> grows h k"
  unfolding grows_def
  by (metis (no_types, opaque_lifting) append.assoc le_trans less_le_trans)

lemma SubElement_grows: "grows h (snd (SubElement h p t))"
  by (auto simp: grows_def SubElement_def nth_append nth_update_cell)

lemma SubElement_wf:
  "wf_heap h \<Longrightarrow> wf_heap (snd (SubElement h p t))"
  by (auto simp: wf_heap_iff SubElement_def nth_append nth_update_cell Element_new_def less_Suc_eq
      split: if_splits)

lemma loop_grows:
  "ObtainElement_loop h p parts = (res, h') \<Longrightarrow> grows h h'"
proof (induction parts arbitrary: h p)
  case Nil
  then show ?case by (simp add: grows_refl)
next
  case (Cons s parts)
  show ?case
  proof (cases "endswith s CHR ''+''")
    case True
    with Cons.prems have "ObtainElement_loop (snd (SubElement h p (butlast s))) (fst (SubElement h p (butlast s))) parts = (res, h')"
      by (simp split: prod.splits)
    from Cons.IH[OF this] show ?thesis
      using SubElement_grows grows_trans by blast
  next
    case False
    show ?thesis
    proof (cases "find_el h p s")
      case (Inl e)
      with False Cons.prems show ?thesis by (simp add: grows_refl)
    next
      case (Inr r)
      show ?thesis
      proof (cases r)
        case None
        with Inr False Cons.prems have "ObtainElement_loop (snd (SubElement h p s)) (fst (SubElement h p s)) parts = (res, h')"
          by (simp split: prod.splits)
        from Cons.IH[OF this] show ?thesis
          using SubElement_grows grows_trans by blast
      next
        case (Some c)
        with Inr False Cons.prems have "ObtainElement_loop h c parts = (res, h')"
          by simp
        from Cons.IH[OF this] show ?thesis .
      qed
    qed
  qed
qed

lemma loop_valid:
  "wf_heap h \<Longrightarrow> p < length h \<Longrightarrow> ObtainElement_loop h p parts = (Inr r, h') \<Longrightarrow>
     r < length h' \<and> wf_heap h'"
proof (induction parts arbitrary: h p)
  case Nil
  then show ?case by simp
next
  case (Cons s parts)
  from Cons.prems(3) show ?case
  proof (cases rule: loop_step_cases)
    case (error e)
    then show ?thesis by simp
  next
    case (found c)
    then show ?thesis
      using Cons.IH[of h c] Cons.prems(1,2) find_el_valid by blast
  next
    case (created t)
    then show ?thesis
      using Cons.IH[of "snd (SubElement h p t)" "length h"] Cons.prems(1)
      by (simp add: SubElement_wf length_SubElement)
  qed
qed









section \<open>Resolving a path a second time\<close>

lemma first_by_stable:
  "first_by h cs P = Some c \<Longrightarrow> \<forall>x\<in>set cs. x < length h \<Longrightarrow> grows h g \<Longrightarrow>
     first_by g (cs @ ys) P = Some c"
  by (induction cs) (auto simp: grows_def split: if_splits)

lemma grows_children:
  "grows h g \<Longrightarrow> p < length h \<Longrightarrow> \<exists>ys. children (g ! p) = children (h ! p) @ ys"
  by (simp add: grows_def)

lemma first_by_SubElement:
  assumes "first_by h (children (h ! p)) P = None" "wf_heap h" "p < length h" "P s"
  shows "first_by (snd (SubElement h p s)) (children (snd (SubElement h p s) ! p)) P
           = Some (length h)"
proof -
  let ?h2 = "snd (SubElement h p s)"
  have valid: "\<forall>c\<in>set (children (h ! p)). c < length h"
    using assms(2,3) by (simp add: wf_heap_iff)
  have ch: "children (?h2 ! p) = children (h ! p) @ [length h]"
    using assms(3) by (simp add: SubElement_def nth_append)
  have new: "tag (?h2 ! length h) = s"
    by (simp add: SubElement_def nth_append Element_new_def)
  have old: "\<And>c. c < length h \<Longrightarrow> tag (?h2 ! c) = tag (h ! c)"
    by (simp add: SubElement_def nth_append nth_update_cell)
  have "\<And>cs. \<forall>c\<in>set cs. c < length h \<and> \<not> P (tag (h ! c)) \<Longrightarrow>
          first_by ?h2 (cs @ [length h]) P = Some (length h)"
  proof -
    fix cs show "\<forall>c\<in>set cs. c < length h \<and> \<not> P (tag (h ! c)) \<Longrightarrow>
          first_by ?h2 (cs @ [length h]) P = Some (length h)"
      using new old assms(4) by (induction cs) auto
  qed
  then show ?thesis
    using valid assms(1) ch by (simp add: first_by_None_iff)
qed

lemma look_valid:
  assumes "look h p l = Some c" "wf_heap h" "p < length h"
  shows "c < length h"
proof (cases "l = Itself")
  case True
  with assms show ?thesis by (simp add: look_def)
next
  case False
  with assms(1) have "first_by h (children (h ! p)) (passes l) = Some c"
    by (simp add: look_def)
  then have "c \<in> set (children (h ! p))"
    using first_by_in_set by blast
  with assms(2,3) show ?thesis by (rule wf_heap_children)
qed

lemma look_stable:
  assumes "look h p l = Some c" "wf_heap h" "p < length h" "grows h g"
  shows "look g p l = Some c"
proof (cases "l = Itself")
  case True
  with assms show ?thesis by (simp add: look_def)
next
  case False
  with assms(1) have fb: "first_by h (children (h ! p)) (passes l) = Some c"
    by (simp add: look_def)
  have valid: "\<forall>x\<in>set (children (h ! p)). x < length h"
    using assms(2,3) by (simp add: wf_heap_iff)
  obtain ys where "children (g ! p) = children (h ! p) @ ys"
    using grows_children[OF assms(4,3)] by blast
  with first_by_stable[OF fb valid assms(4)] False show ?thesis
    by (simp add: look_def)
qed

lemma look_created:
  assumes "look h p l = None" "wf_heap h" "p < length h" "passes l s"
  shows "look (snd (SubElement h p s)) p l = Some (length h)"
proof -
  from assms(1) have l: "l \<noteq> Itself" and fb: "first_by h (children (h ! p)) (passes l) = None"
    by (auto simp: look_def split: if_splits)
  from first_by_SubElement[OF fb assms(2,3,4)] l show ?thesis
    by (simp add: look_def)
qed

lemma loop_stable:
  assumes "list_all reusable parts" "ObtainElement_loop h p parts = (Inr r, h')"
    "wf_heap h" "p < length h" "grows h' g"
  shows "ObtainElement_loop g p parts = (Inr r, g)"
  using assms
proof (induction parts arbitrary: h p)
  case Nil
  then show ?case by simp
next
  case (Cons s parts)
  from Cons.prems(1) have rs: "reusable s" and rest: "list_all reusable parts"
    by simp_all
  from rs obtain l where l: "lookup_of s = Some l" "passes l s" and s: "\<not> endswith s CHR ''+''"
    by (rule reusable_lookup)
  have find: "\<And>k q. find_el k q s = Inr (look k q l)"
    using find_el_lookup[OF l(1)] .
  have hg: "grows h g"
    using loop_grows[OF Cons.prems(2)] Cons.prems(5) grows_trans by blast
  show ?case
  proof (cases "look h p l")
    case (Some c)
    with s Cons.prems(2) have run: "ObtainElement_loop h c parts = (Inr r, h')"
      by (simp add: find)
    have c: "c < length h"
      using look_valid[OF Some Cons.prems(3,4)] .
    have "look g p l = Some c"
      using look_stable[OF Some Cons.prems(3,4) hg] .
    then have "ObtainElement_loop g p (s # parts) = ObtainElement_loop g c parts"
      using s by (simp add: find)
    also have "\<dots> = (Inr r, g)"
      using Cons.IH[OF rest run Cons.prems(3) c Cons.prems(5)] .
    finally show ?thesis .
  next
    case None
    let ?h2 = "snd (SubElement h p s)"
    have n: "fst (SubElement h p s) = length h"
      by (simp add: SubElement_def)
    from None s Cons.prems(2) have run: "ObtainElement_loop ?h2 (length h) parts = (Inr r, h')"
      by (simp add: find n[symmetric] split: prod.splits)
    have wf2: "wf_heap ?h2"
      using Cons.prems(3) by (rule SubElement_wf)
    have len2: "length ?h2 = Suc (length h)"
      by (simp add: SubElement_def)
    have p2: "p < length ?h2"
      using Cons.prems(4) len2 by simp
    have h2g: "grows ?h2 g"
      using loop_grows[OF run] Cons.prems(5) grows_trans by blast
    have "look ?h2 p l = Some (length h)"
      using look_created[OF None Cons.prems(3,4) l(2)] .
    from look_stable[OF this wf2 p2 h2g]
    have "ObtainElement_loop g p (s # parts) = ObtainElement_loop g (length h) parts"
      using s by (simp add: find)
    also have "\<dots> = (Inr r, g)"
      using Cons.IH[OF rest run wf2 _ Cons.prems(5)] len2 by simp
    finally show ?thesis .
  qed
qed

text \<open>A path of resolvable segments is resolved without an error.\<close>

lemma loop_resolvable_returns:
  "list_all resolvable parts \<Longrightarrow> \<exists>r h'. ObtainElement_loop h p parts = (Inr r, h')"
proof (induction parts arbitrary: h p)
  case Nil
  then show ?case by simp
next
  case (Cons s parts)
  then have rs: "resolvable s" and rest: "list_all resolvable parts"
    by simp_all
  show ?case
  proof (cases "endswith s CHR ''+''")
    case True
    with Cons.IH[OF rest] show ?thesis
      by (simp split: prod.splits)
  next
    case False
    with rs have "finds s" by (simp add: resolvable_def)
    then obtain x where "find_el h p s = Inr x"
      using finds_returns by blast
    with False Cons.IH[OF rest] show ?thesis
      by (cases x) (simp_all split: prod.splits)
  qed
qed

lemma reusable_resolvable: "reusable s \<Longrightarrow> resolvable s"
proof -
  assume rs: "reusable s"
  then obtain l where l: "lookup_of s = Some l"
    by (rule reusable_lookup)
  show "resolvable s"
  proof (cases "checkpath s")
    case False
    then show ?thesis by (simp add: resolvable_def finds_def)
  next
    case True
    with l obtain selector where sel: "prepare True (xpath_tokens s) = Inr selector"
      and s: "CHR ''/'' \<notin> set s" "xpath_tokens s \<noteq> []"
      and core: "(case filter (\<lambda>st. st \<noteq> Self) selector of
                  [] \<Rightarrow> Some Itself
                | [Star] \<Rightarrow> Some First
                | [Child t] \<Rightarrow> (if t = ''{}*'' then None else Some (Test t))
                | _ \<Rightarrow> None) = Some l"
      by (auto simp: lookup_of_def split: if_splits sum.splits)
    have "Child ''{}*'' \<notin> set selector"
    proof
      assume "Child ''{}*'' \<in> set selector"
      then have mem: "Child ''{}*'' \<in> set (filter (\<lambda>st. st \<noteq> Self) selector)"
        by simp
      from core consider "filter (\<lambda>st. st \<noteq> Self) selector = []"
        | "filter (\<lambda>st. st \<noteq> Self) selector = [Star]"
        | t where "filter (\<lambda>st. st \<noteq> Self) selector = [Child t]" "t \<noteq> ''{}*''"
        by (auto split: list.splits step.splits if_splits)
      then show False
      proof cases
        case 1
        with mem show ?thesis by (simp del: set_filter)
      next
        case 2
        with mem show ?thesis by (simp del: set_filter)
      next
        case 3
        with mem show ?thesis by (simp del: set_filter)
      qed
    qed
    with True sel s show ?thesis
      by (simp add: resolvable_def finds_def)
  qed
qed

lemma loop_reusable_returns:
  "list_all reusable parts \<Longrightarrow> \<exists>r h'. ObtainElement_loop h p parts = (Inr r, h')"
  by (rule loop_resolvable_returns) (auto simp: list_all_iff reusable_resolvable)

lemma ObtainElement_as_loop:
  "name \<noteq> [] \<Longrightarrow>
     ObtainElement h self name = ObtainElement_loop h (root self) (py_split CHR ''/'' name)"
  by (simp add: ObtainElement_def)

lemma ObtainElement_valid:
  assumes "wf_heap h" "root self < length h" "ObtainElement h self name = (Inr r, h')"
  shows "r < length h' \<and> wf_heap h'"
proof (cases "name = []")
  case True
  with assms show ?thesis by (simp add: ObtainElement_def)
next
  case False
  with assms(3) have "ObtainElement_loop h (root self) (py_split CHR ''/'' name) = (Inr r, h')"
    by (simp add: ObtainElement_as_loop)
  from loop_valid[OF assms(1,2) this] show ?thesis .
qed



lemmas run_defs = ObtainElement_def SubElement_def find_el_def checkpath_def endswith_def
  Element_new_def root_only_def root_with_a_def ElementPath_find_def xpath_tokens.simps(2)
  name_char_def is_space_def tag_test_def lookup_of_def tag_lookup_def reusable_def
  resolvable_def finds_def wf_heap_def

section \<open>Segments without the force marker\<close>

text \<open>
  C1, as amended. Take a segment that does not end with \<^verbatim>\<open>+\<close> and that \<^verbatim>\<open>find\<close> looks up
  as a tag name (\<open>tag_lookup\<close>: it has no path character, or it is read as one
  name, as \<^verbatim>\<open>bravo.one\<close> is). One turn of the loop of \<^verbatim>\<open>_ObtainElement\<close> either finds
  the first direct child of the parent, in document order, whose tag equals the
  segment, and goes on from that child in the unchanged store; or no direct child
  has that tag, and it goes on from a new element with that tag, without
  attributes, text or children, appended as the last child of the parent.
\<close>

theorem tag_segment_found_or_created:
  assumes "\<not> endswith s CHR ''+''" and "tag_lookup s"
  shows "(\<exists>i<length (children (h ! p)).
            tag (h ! (children (h ! p) ! i)) = s \<and>
            (\<forall>j<i. tag (h ! (children (h ! p) ! j)) \<noteq> s) \<and>
            ObtainElement_loop h p (s # rest) = ObtainElement_loop h (children (h ! p) ! i) rest)
       \<or> ((\<forall>c\<in>set (children (h ! p)). tag (h ! c) \<noteq> s) \<and>
            ObtainElement_loop h p (s # rest) =
              ObtainElement_loop
                (h[p := (h ! p)\<lparr>children := children (h ! p) @ [length h]\<rparr>]
                   @ [\<lparr>tag = s, attrib = [], etext = None, children = []\<rparr>])
                (length h) rest)"
proof (cases "first_child h (children (h ! p)) s")
  case None
  then have "\<forall>c\<in>set (children (h ! p)). tag (h ! c) \<noteq> s"
    by (simp add: first_child_None_iff)
  moreover have "ObtainElement_loop h p (s # rest) =
      ObtainElement_loop
        (h[p := (h ! p)\<lparr>children := children (h ! p) @ [length h]\<rparr>]
           @ [\<lparr>tag = s, attrib = [], etext = None, children = []\<rparr>])
        (length h) rest"
    using assms None by (simp add: tag_lookup_first_child SubElement_def Element_new_def)
  ultimately show ?thesis by (intro disjI2 conjI)
next
  case (Some c)
  from first_child_Some[OF Some] obtain i where i: "i < length (children (h ! p))"
    "children (h ! p) ! i = c" "tag (h ! c) = s" "\<forall>j<i. tag (h ! (children (h ! p) ! j)) \<noteq> s"
    by blast
  have "ObtainElement_loop h p (s # rest) = ObtainElement_loop h c rest"
    using assms Some by (simp add: tag_lookup_first_child)
  with i show ?thesis by (intro disjI1 exI[of _ i]) simp
qed

text \<open>The theorem at the store with the root and one child \<^verbatim>\<open>a\<close>: the segment
  \<^verbatim>\<open>a\<close> is resolved to that child, and nothing is created; the segment
  \<^verbatim>\<open>bravo.one\<close> is resolved to a new second child with that tag.\<close>

theorem tag_segment_found_or_created_witness:
  "\<not> endswith ''a'' CHR ''+'' \<and> tag_lookup ''a'' \<and>
   ObtainElement_loop root_with_a 0 [''a''] = (Inr 1, root_with_a) \<and>
   \<not> endswith ''bravo.one'' CHR ''+'' \<and> tag_lookup ''bravo.one'' \<and>
   ObtainElement_loop root_with_a 0 [''bravo.one''] =
     (Inr 2, [\<lparr>tag = ''root'', attrib = [], etext = None, children = [1, 2]\<rparr>,
              \<lparr>tag = ''a'', attrib = [], etext = None, children = []\<rparr>,
              \<lparr>tag = ''bravo.one'', attrib = [], etext = None, children = []\<rparr>])"
proof -
  have a: "\<not> endswith ''a'' CHR ''+''" "tag_lookup ''a''"
    by (simp_all add: run_defs)
  have b: "\<not> endswith ''bravo.one'' CHR ''+''" "tag_lookup ''bravo.one''"
    by (simp_all add: run_defs)
  from tag_segment_found_or_created [OF a, of root_with_a 0 "[]"]
    tag_segment_found_or_created [OF b, of root_with_a 0 "[]"] a b
  show ?thesis
    by (simp add: root_with_a_def Element_new_def)
qed

text \<open>
  C1 as stated fails for a segment that \<^verbatim>\<open>find\<close> reads as a path expression. In the
  store with the root and its only child \<^verbatim>\<open>a\<close>, the segment \<^verbatim>\<open>*\<close> has no force
  marker and equals no child's tag, yet no element is created: the child \<^verbatim>\<open>a\<close> is
  the result.
\<close>

theorem star_segment_reuses_other_tag:
  "\<not> endswith ''*'' CHR ''+'' \<and> children (root_with_a ! 0) = [1] \<and>
   tag (root_with_a ! 1) = ''a'' \<and>
   ObtainElement_loop root_with_a 0 [''*''] = (Inr 1, root_with_a)"
  by (simp add: run_defs)

section \<open>Segments with the force marker\<close>

text \<open>
  C2. For a segment \<^verbatim>\<open>t+\<close>, one turn of the loop goes on from a new element with the
  tag \<open>t\<close>, appended as the last child of the parent, whatever children the parent
  has: nothing is looked up. Hence resolving the path \<^verbatim>\<open>t+\<close> (one segment: no slash
  in \<open>t\<close>) twice from the same facade returns two different new elements, both
  with the tag \<open>t\<close> and both children of the facade's element.
\<close>

theorem force_marker_always_creates:
  "ObtainElement_loop h p ((t @ ''+'') # rest) =
     ObtainElement_loop
       (h[p := (h ! p)\<lparr>children := children (h ! p) @ [length h]\<rparr>]
          @ [\<lparr>tag = t, attrib = [], etext = None, children = []\<rparr>])
       (length h) rest
   \<and> (CHR ''/'' \<notin> set t \<and> root self < length h \<longrightarrow>
        (\<exists>h1 h2. ObtainElement h self (t @ ''+'') = (Inr (length h), h1) \<and>
                 ObtainElement h1 self (t @ ''+'') = (Inr (Suc (length h)), h2) \<and>
                 tag (h2 ! length h) = t \<and> tag (h2 ! Suc (length h)) = t \<and>
                 children (h2 ! root self) = children (h ! root self) @ [length h, Suc (length h)]))"
proof -
  have step: "\<And>h p rest. ObtainElement_loop h p ((t @ ''+'') # rest) =
     ObtainElement_loop
       (h[p := (h ! p)\<lparr>children := children (h ! p) @ [length h]\<rparr>]
          @ [\<lparr>tag = t, attrib = [], etext = None, children = []\<rparr>])
       (length h) rest"
    by (simp add: endswith_def SubElement_def Element_new_def)
  have twice: "\<exists>h1 h2. ObtainElement h self (t @ ''+'') = (Inr (length h), h1) \<and>
                 ObtainElement h1 self (t @ ''+'') = (Inr (Suc (length h)), h2) \<and>
                 tag (h2 ! length h) = t \<and> tag (h2 ! Suc (length h)) = t \<and>
                 children (h2 ! root self) = children (h ! root self) @ [length h, Suc (length h)]"
    if t: "CHR ''/'' \<notin> set t" and r: "root self < length h"
  proof -
    have sp: "py_split CHR ''/'' (t @ ''+'') = [t @ ''+'']"
      using t by (simp add: py_split_no_sep)
    let ?h1 = "h[root self := (h ! root self)\<lparr>children := children (h ! root self) @ [length h]\<rparr>]
          @ [\<lparr>tag = t, attrib = [], etext = None, children = []\<rparr>]"
    let ?h2 = "?h1[root self := (?h1 ! root self)\<lparr>children := children (?h1 ! root self) @ [length ?h1]\<rparr>]
          @ [\<lparr>tag = t, attrib = [], etext = None, children = []\<rparr>]"
    have 1: "ObtainElement h self (t @ ''+'') = (Inr (length h), ?h1)"
      unfolding ObtainElement_def sp using step[of h "root self" "[]"] by simp
    have 2: "ObtainElement ?h1 self (t @ ''+'') = (Inr (Suc (length h)), ?h2)"
      unfolding ObtainElement_def sp using step[of ?h1 "root self" "[]"] by simp
    have 3: "tag (?h2 ! length h) = t" "tag (?h2 ! Suc (length h)) = t"
      using r by (simp_all add: nth_append nth_update_cell)
    have 4: "children (?h2 ! root self) = children (h ! root self) @ [length h, Suc (length h)]"
      using r by (simp add: nth_append)
    from 1 2 3 4 show ?thesis by blast
  qed
  from step twice show ?thesis by blast
qed

text \<open>The theorem at the store where the root already has a child \<^verbatim>\<open>a\<close> (element 1):
  \<^verbatim>\<open>a+\<close> gives element 2, and \<^verbatim>\<open>a+\<close> again gives element 3.\<close>

theorem force_marker_always_creates_witness:
  "tag (root_with_a ! 1) = ''a'' \<and>
   fst (ObtainElement root_with_a \<lparr>root = 0\<rparr> ''a+'') = Inr 2 \<and>
   fst (ObtainElement (snd (ObtainElement root_with_a \<lparr>root = 0\<rparr> ''a+'')) \<lparr>root = 0\<rparr> ''a+'') = Inr 3"
  using force_marker_always_creates [of root_with_a 0 "''a''" "[]" "\<lparr>root = 0\<rparr>"]
  by (simp add: run_defs)

section \<open>Resolving one segment twice\<close>

text \<open>
  C3, as amended. Let \<open>t\<close> be a non-empty single segment (no slash) that is
  \<open>reusable\<close>: it has no force marker, and \<^verbatim>\<open>find\<close> returns for it the element itself
  or the first direct child whose tag passes a test that the tag \<open>t\<close> passes. Every
  segment looked up as a tag name is of this kind, and so are \<^verbatim>\<open>.\<close>, \<^verbatim>\<open>*\<close> and the
  namespace wildcards \<^verbatim>\<open>{*}name\<close> and \<^verbatim>\<open>ns}*\<close>. In a well-formed store, resolving the
  path \<open>t\<close> returns an element, and resolving it again in the store the first
  resolution left returns the same element and leaves that store as it is. When
  \<open>t\<close> is looked up as a tag name, the element is a child of the facade's element
  and its tag is \<open>t\<close>.
\<close>

theorem reusable_segment_twice_same_element:
  assumes "wf_heap h" and "root self < length h"
    and "t \<noteq> []" and "CHR ''/'' \<notin> set t" and "reusable t"
  shows "\<exists>r h1. ObtainElement h self t = (Inr r, h1) \<and> ObtainElement h1 self t = (Inr r, h1) \<and>
           (tag_lookup t \<longrightarrow> r \<in> set (children (h1 ! root self)) \<and> tag (h1 ! r) = t)"
proof -
  have sp: "py_split CHR ''/'' t = [t]"
    using assms(4) by (simp add: py_split_no_sep)
  have re: "list_all reusable [t]"
    using assms(5) by simp
  have nf: "\<not> endswith t CHR ''+''"
    using assms(5) by (simp add: reusable_def)
  obtain r h1 where run: "ObtainElement_loop h (root self) [t] = (Inr r, h1)"
    using loop_reusable_returns[OF re] by blast
  have again: "ObtainElement_loop h1 (root self) [t] = (Inr r, h1)"
    using loop_stable[OF re run assms(1,2) grows_refl] .
  have child: "r \<in> set (children (h1 ! root self)) \<and> tag (h1 ! r) = t" if tl: "tag_lookup t"
  proof (cases "first_child h (children (h ! root self)) t")
    case None
    with run assms(2) nf show ?thesis
      by (auto simp: tag_lookup_first_child[OF tl] SubElement_def nth_append Element_new_def)
  next
    case (Some c)
    with run nf have "r = c" "h1 = h"
      by (simp_all add: tag_lookup_first_child[OF tl])
    with first_child_Some[OF Some] first_child_in_set[OF Some] show ?thesis by auto
  qed
  from run again child show ?thesis
    using assms(3) sp by (auto simp: ObtainElement_def)
qed

text \<open>The theorem at the store holding only the root, for the tag \<^verbatim>\<open>bravo.one\<close>: the
  first resolution creates element 1, the second returns element 1. And at the store
  with the root and its child \<^verbatim>\<open>a\<close>, for the segment \<^verbatim>\<open>*\<close>: both resolutions return
  that child.\<close>

theorem reusable_segment_twice_same_element_witness:
  "ObtainElement root_only \<lparr>root = 0\<rparr> ''bravo.one'' =
     (Inr 1, [\<lparr>tag = ''root'', attrib = [], etext = None, children = [1]\<rparr>,
              \<lparr>tag = ''bravo.one'', attrib = [], etext = None, children = []\<rparr>]) \<and>
   ObtainElement [\<lparr>tag = ''root'', attrib = [], etext = None, children = [1]\<rparr>,
              \<lparr>tag = ''bravo.one'', attrib = [], etext = None, children = []\<rparr>]
        \<lparr>root = 0\<rparr> ''bravo.one'' =
     (Inr 1, [\<lparr>tag = ''root'', attrib = [], etext = None, children = [1]\<rparr>,
              \<lparr>tag = ''bravo.one'', attrib = [], etext = None, children = []\<rparr>]) \<and>
   ObtainElement root_with_a \<lparr>root = 0\<rparr> ''*'' = (Inr 1, root_with_a)"
proof -
  have 1: "wf_heap root_only" "root \<lparr>root = 0\<rparr> < length root_only"
    by (simp_all add: run_defs)
  have 2: "wf_heap root_with_a" "root \<lparr>root = 0\<rparr> < length root_with_a"
    by (simp_all add: run_defs)
  have b: "''bravo.one'' \<noteq> []" "CHR ''/'' \<notin> set ''bravo.one''" "reusable ''bravo.one''"
    by (simp_all add: run_defs)
  have s: "''*'' \<noteq> []" "CHR ''/'' \<notin> set ''*''" "reusable ''*''"
    by (simp_all add: run_defs)
  from reusable_segment_twice_same_element [OF 1 b]
    reusable_segment_twice_same_element [OF 2 s]
  show ?thesis
    by (simp add: run_defs)
qed

text \<open>
  C3 as stated fails for the non-empty segment \<^verbatim>\<open>..\<close>, which has no force marker:
  \<^verbatim>\<open>find\<close> reads it as the path to the parent and finds nothing, also when a child
  with the tag \<^verbatim>\<open>..\<close> exists. The first resolution creates element 1 and the second
  creates element 2.
\<close>

theorem dotdot_twice_two_elements:
  "ObtainElement root_only \<lparr>root = 0\<rparr> ''..'' =
     (Inr 1, [\<lparr>tag = ''root'', attrib = [], etext = None, children = [1]\<rparr>,
              \<lparr>tag = ''..'', attrib = [], etext = None, children = []\<rparr>]) \<and>
   ObtainElement [\<lparr>tag = ''root'', attrib = [], etext = None, children = [1]\<rparr>,
                  \<lparr>tag = ''..'', attrib = [], etext = None, children = []\<rparr>] \<lparr>root = 0\<rparr> ''..'' =
     (Inr 2, [\<lparr>tag = ''root'', attrib = [], etext = None, children = [1, 2]\<rparr>,
              \<lparr>tag = ''..'', attrib = [], etext = None, children = []\<rparr>,
              \<lparr>tag = ''..'', attrib = [], etext = None, children = []\<rparr>])"
  by (simp add: run_defs)

section \<open>The empty path\<close>

text \<open>
  C4. Resolving the empty path returns the element the facade wraps, not a child of
  it, and leaves the store as it was: no element is created.
\<close>

theorem ObtainElement_empty_path:
  "ObtainElement h self '''' = (Inr (root self), h)"
  by (simp add: ObtainElement_def)

section \<open>Assignment\<close>

lemma setitem_attribute:
  assumes "CHR ''@'' \<notin> set e" "CHR ''@'' \<notin> set a"
  shows "setitem h self (e @ ''@'' @ a) v =
     (case ObtainElement h self e of
        (Inl err, h') \<Rightarrow> (Inl err, h')
      | (Inr r, h') \<Rightarrow>
          (Inr \<lparr>root = r\<rparr>,
           h'[r := (h' ! r)\<lparr>attrib := AList.update a (str v) (attrib (h' ! r))\<rparr>]))"
  using rsplit_one_marker[OF assms]
  by (simp add: setitem_def init_def split: prod.splits sum.splits)

lemma setitem_text:
  assumes "CHR ''@'' \<notin> set name"
  shows "setitem h self name v =
     (case ObtainElement h self name of
        (Inl err, h') \<Rightarrow> (Inl err, h')
      | (Inr r, h') \<Rightarrow>
          (Inr \<lparr>root = r\<rparr>, h'[r := (h' ! r)\<lparr>etext := Some (str v)\<rparr>]))"
  using assms
  by (simp add: setitem_def init_def text_type_def split: prod.splits sum.splits)

lemma grows_text_update: "grows h (h[r := (h ! r)\<lparr>etext := x\<rparr>])"
  by (auto simp: grows_def nth_update_cell)

lemma ObtainElement_reusable_returns:
  "list_all reusable (py_split CHR ''/'' name) \<Longrightarrow> \<exists>r h'. ObtainElement h self name = (Inr r, h')"
  using loop_reusable_returns[of "py_split CHR ''/'' name" h "root self"]
  by (cases "name = []") (simp_all add: ObtainElement_def)

lemma ObtainElement_stable:
  assumes "list_all reusable (py_split CHR ''/'' name)" "ObtainElement h self name = (Inr r, h')"
    "wf_heap h" "root self < length h" "grows h' g"
  shows "ObtainElement g self name = (Inr r, g)"
proof (cases "name = []")
  case True
  with assms(2) show ?thesis by (simp add: ObtainElement_def)
next
  case False
  with assms(2) have "ObtainElement_loop h (root self) (py_split CHR ''/'' name) = (Inr r, h')"
    by (simp add: ObtainElement_as_loop)
  from loop_stable[OF assms(1) this assms(3,4,5)] False show ?thesis
    by (simp add: ObtainElement_as_loop)
qed

lemma setitem_text_result:
  assumes "CHR ''@'' \<notin> set name" "ObtainElement h self name = (Inr r, h')"
  shows "setitem h self name v = (Inr \<lparr>root = r\<rparr>, h'[r := (h' ! r)\<lparr>etext := Some (str v)\<rparr>])"
  using assms by (simp add: setitem_def init_def text_type_def)

text \<open>
  C5, as amended. For a name \<^verbatim>\<open>e@a\<close> with exactly one attribute marker (none in
  \<open>e\<close>, none in \<open>a\<close>), \<^verbatim>\<open>__setitem__\<close> resolves \<open>e\<close> as a path and stores the string
  form of the value under the attribute \<open>a\<close> of the resolved element; for a name
  without a marker it resolves the whole name and stores the string form of the value
  as the text of the resolved element. In both cases it returns a facade on that
  element, and it changes nothing else in the store the resolution left. An error of
  the resolution is passed on, with the store as the resolution left it.
\<close>

theorem setitem_attribute_or_text:
  "(CHR ''@'' \<notin> set e \<and> CHR ''@'' \<notin> set a \<longrightarrow>
      setitem h self (e @ ''@'' @ a) v =
        (case ObtainElement h self e of
           (Inl err, h') \<Rightarrow> (Inl err, h')
         | (Inr r, h') \<Rightarrow>
             (Inr \<lparr>root = r\<rparr>,
              h'[r := (h' ! r)\<lparr>attrib := AList.update a (str v) (attrib (h' ! r))\<rparr>])))
   \<and> (CHR ''@'' \<notin> set name \<longrightarrow>
      setitem h self name v =
        (case ObtainElement h self name of
           (Inl err, h') \<Rightarrow> (Inl err, h')
         | (Inr r, h') \<Rightarrow>
             (Inr \<lparr>root = r\<rparr>, h'[r := (h' ! r)\<lparr>etext := Some (str v)\<rparr>])))"
  using setitem_attribute setitem_text by blast

text \<open>The theorem in the store holding only the root: the attribute \<^verbatim>\<open>cls\<close> of a new
  element \<^verbatim>\<open>alpha\<close> set to the integer 7, and the text of a new element \<^verbatim>\<open>alpha\<close> set
  to the truth value \<^verbatim>\<open>True\<close>.\<close>

theorem setitem_attribute_or_text_witness:
  "setitem root_only \<lparr>root = 0\<rparr> ''alpha@cls'' (PyInt 7) =
     (Inr \<lparr>root = 1\<rparr>,
      [\<lparr>tag = ''root'', attrib = [], etext = None, children = [1]\<rparr>,
       \<lparr>tag = ''alpha'', attrib = [(''cls'', ''7'')], etext = None, children = []\<rparr>]) \<and>
   setitem root_only \<lparr>root = 0\<rparr> ''alpha'' (PyBool True) =
     (Inr \<lparr>root = 1\<rparr>,
      [\<lparr>tag = ''root'', attrib = [], etext = None, children = [1]\<rparr>,
       \<lparr>tag = ''alpha'', attrib = [], etext = Some ''True'', children = []\<rparr>])"
  using setitem_attribute_or_text [of "''alpha''" "''cls''" root_only "\<lparr>root = 0\<rparr>" "PyInt 7" "''alpha''"]
    setitem_attribute_or_text [of "''alpha''" "''cls''" root_only "\<lparr>root = 0\<rparr>" "PyBool True" "''alpha''"]
  by (simp add: run_defs decimal.simps)

text \<open>
  C5 as stated fails for a name with two markers: \<^verbatim>\<open>a@b@c\<close> contains the attribute
  marker, but the split has three parts, the unpacking raises \<^verbatim>\<open>ValueError\<close>, and no
  attribute is set and no facade returned.
\<close>

theorem setitem_two_markers_raises:
  "CHR ''@'' \<in> set ''a@b@c'' \<and>
   setitem root_only \<lparr>root = 0\<rparr> ''a@b@c'' (PyStr ''X'') = (Inl ValueError, root_only)"
  by (simp add: setitem_def rsplit_def)

text \<open>
  C7, as amended. In a well-formed store, take a name without attribute marker whose
  segments are all \<open>reusable\<close> (no force marker, and looked up by a test that the
  segment's own tag passes, as every tag name is; \<^verbatim>\<open>alpha/delta\<close> is such a name). A
  first assignment of \<open>v1\<close> returns an element \<open>r\<close> whose text is the string form
  of \<open>v1\<close>; a second assignment of \<open>v2\<close> to the same name returns the same element
  \<open>r\<close>, and the store after it is the store before it with the text of \<open>r\<close>
  replaced by the string form of \<open>v2\<close>: no element is added and the text is not
  appended to.
\<close>

theorem text_last_write_wins:
  assumes "wf_heap h" and "root self < length h" and "CHR ''@'' \<notin> set name"
    and "list_all reusable (py_split CHR ''/'' name)"
  shows "\<exists>r h1. setitem h self name v1 = (Inr \<lparr>root = r\<rparr>, h1) \<and>
           r < length h1 \<and> etext (h1 ! r) = Some (str v1) \<and>
           setitem h1 self name v2 =
             (Inr \<lparr>root = r\<rparr>, h1[r := (h1 ! r)\<lparr>etext := Some (str v2)\<rparr>])"
proof -
  obtain r h' where run: "ObtainElement h self name = (Inr r, h')"
    using ObtainElement_reusable_returns[OF assms(4)] by blast
  have r: "r < length h'"
    using ObtainElement_valid[OF assms(1,2) run] by simp
  let ?h1 = "h'[r := (h' ! r)\<lparr>etext := Some (str v1)\<rparr>]"
  have first: "setitem h self name v1 = (Inr \<lparr>root = r\<rparr>, ?h1)"
    using setitem_text_result[OF assms(3) run] .
  have again: "ObtainElement ?h1 self name = (Inr r, ?h1)"
    using ObtainElement_stable[OF assms(4) run assms(1,2) grows_text_update] .
  have second: "setitem ?h1 self name v2 =
      (Inr \<lparr>root = r\<rparr>, ?h1[r := (?h1 ! r)\<lparr>etext := Some (str v2)\<rparr>])"
    using setitem_text_result[OF assms(3) again] .
  have "r < length ?h1" "etext (?h1 ! r) = Some (str v1)"
    using r by simp_all
  with first second show ?thesis by blast
qed

text \<open>The theorem in the store holding only the root: \<^verbatim>\<open>alpha/delta\<close> set to
  \<^verbatim>\<open>XXX\<close> and then to \<^verbatim>\<open>YYY\<close>. Both assignments return element 2, and the second
  store has the same three elements as the first.\<close>

theorem text_last_write_wins_witness:
  "setitem root_only \<lparr>root = 0\<rparr> ''alpha/delta'' (PyStr ''XXX'') =
     (Inr \<lparr>root = 2\<rparr>,
      [\<lparr>tag = ''root'', attrib = [], etext = None, children = [1]\<rparr>,
       \<lparr>tag = ''alpha'', attrib = [], etext = None, children = [2]\<rparr>,
       \<lparr>tag = ''delta'', attrib = [], etext = Some ''XXX'', children = []\<rparr>]) \<and>
   setitem
      [\<lparr>tag = ''root'', attrib = [], etext = None, children = [1]\<rparr>,
       \<lparr>tag = ''alpha'', attrib = [], etext = None, children = [2]\<rparr>,
       \<lparr>tag = ''delta'', attrib = [], etext = Some ''XXX'', children = []\<rparr>]
      \<lparr>root = 0\<rparr> ''alpha/delta'' (PyStr ''YYY'') =
     (Inr \<lparr>root = 2\<rparr>,
      [\<lparr>tag = ''root'', attrib = [], etext = None, children = [1]\<rparr>,
       \<lparr>tag = ''alpha'', attrib = [], etext = None, children = [2]\<rparr>,
       \<lparr>tag = ''delta'', attrib = [], etext = Some ''YYY'', children = []\<rparr>])"
proof -
  have 1: "wf_heap root_only"
    by (simp add: run_defs)
  have 2: "root \<lparr>root = 0\<rparr> < length root_only"
    by (simp add: root_only_def)
  have 3: "CHR ''@'' \<notin> set ''alpha/delta''"
    by simp
  have 4: "list_all reusable (py_split CHR ''/'' ''alpha/delta'')"
    by (simp add: run_defs)
  from text_last_write_wins [OF 1 2 3 4, of "PyStr ''XXX''" "PyStr ''YYY''"]
  show ?thesis
    by (simp add: setitem_def init_def text_type_def run_defs)
qed

text \<open>
  C7 as stated fails for a path whose last segment has the force marker. In the
  store holding only the root, \<^verbatim>\<open>alpha/delta+\<close> set to \<^verbatim>\<open>XXX\<close> creates element 2; set
  to \<^verbatim>\<open>YYY\<close> again, it creates a second \<^verbatim>\<open>delta\<close>, element 3, and element 2 keeps
  the text \<^verbatim>\<open>XXX\<close>.
\<close>

theorem forced_segment_twice_two_elements:
  "setitem root_only \<lparr>root = 0\<rparr> ''alpha/delta+'' (PyStr ''XXX'') =
     (Inr \<lparr>root = 2\<rparr>,
      [\<lparr>tag = ''root'', attrib = [], etext = None, children = [1]\<rparr>,
       \<lparr>tag = ''alpha'', attrib = [], etext = None, children = [2]\<rparr>,
       \<lparr>tag = ''delta'', attrib = [], etext = Some ''XXX'', children = []\<rparr>]) \<and>
   setitem
      [\<lparr>tag = ''root'', attrib = [], etext = None, children = [1]\<rparr>,
       \<lparr>tag = ''alpha'', attrib = [], etext = None, children = [2]\<rparr>,
       \<lparr>tag = ''delta'', attrib = [], etext = Some ''XXX'', children = []\<rparr>]
      \<lparr>root = 0\<rparr> ''alpha/delta+'' (PyStr ''YYY'') =
     (Inr \<lparr>root = 3\<rparr>,
      [\<lparr>tag = ''root'', attrib = [], etext = None, children = [1]\<rparr>,
       \<lparr>tag = ''alpha'', attrib = [], etext = None, children = [2, 3]\<rparr>,
       \<lparr>tag = ''delta'', attrib = [], etext = Some ''XXX'', children = []\<rparr>,
       \<lparr>tag = ''delta'', attrib = [], etext = Some ''YYY'', children = []\<rparr>])"
  by (simp add: setitem_def init_def text_type_def run_defs)





text \<open>
  C10. For every name with two or more attribute markers \<^verbatim>\<open>__setitem__\<close> raises
  \<^verbatim>\<open>ValueError\<close>, and the store is the one it was called in: the unpacking of the
  split fails before any path is resolved.
\<close>

theorem setitem_many_markers_unchanged:
  assumes "2 \<le> count_list name CHR ''@''"
  shows "setitem h self name v = (Inl ValueError, h)"
proof -
  have "count_list name CHR ''@'' \<noteq> 0"
    using assms by simp
  then have marker: "CHR ''@'' \<in> set name"
    using count_list_0_iff by metis
  obtain x y z zs where "rsplit CHR ''@'' name = x # y # z # zs"
    using rsplit_many_markers[OF assms] by blast
  with marker show ?thesis
    by (simp add: setitem_def)
qed

text \<open>The theorem for the name \<^verbatim>\<open>x@y@z\<close>.\<close>

theorem setitem_many_markers_unchanged_witness:
  "2 \<le> count_list ''x@y@z'' CHR ''@'' \<and>
   setitem root_with_a \<lparr>root = 0\<rparr> ''x@y@z'' (PyInt 5) = (Inl ValueError, root_with_a)"
  using setitem_many_markers_unchanged [of "''x@y@z''" root_with_a "\<lparr>root = 0\<rparr>" "PyInt 5"]
  by simp

section \<open>Construction and read access\<close>

text \<open>
  C6. The constructor makes a fresh root element from a string and wraps an existing
  element; it raises (\<^verbatim>\<open>TypeError\<close>) exactly when its argument is neither. Whenever
  the name holds the attribute marker, \<^verbatim>\<open>__getitem__\<close> fails its assertion
  (\<^verbatim>\<open>AssertionError\<close>) and leaves the store as it was.
\<close>

theorem constructor_and_getitem_errors:
  "init h (Tag_name s) = (Inr \<lparr>root = length h\<rparr>, h @ [Element_new s]) \<and>
   init h (Existing r) = (Inr \<lparr>root = r\<rparr>, h) \<and>
   ((\<exists>e. fst (init h a) = Inl e) \<longleftrightarrow> (\<forall>s. a \<noteq> Tag_name s) \<and> (\<forall>r. a \<noteq> Existing r)) \<and>
   ((\<forall>s. a \<noteq> Tag_name s) \<and> (\<forall>r. a \<noteq> Existing r) \<longrightarrow> init h a = (Inl TypeError, h)) \<and>
   (CHR ''@'' \<in> set name \<longrightarrow> getitem h self name = (Inl AssertionError, h))"
  by (cases a) (simp_all add: init_def getitem_def)

text \<open>The theorem for an argument that is neither, for the tag name \<^verbatim>\<open>doc\<close>, and for the name
  \<^verbatim>\<open>alpha@cls\<close>.\<close>

theorem constructor_and_getitem_errors_witness:
  "init root_only Other_object = (Inl TypeError, root_only) \<and>
   init root_only (Tag_name ''doc'') = (Inr \<lparr>root = 1\<rparr>, root_only @ [Element_new ''doc'']) \<and>
   getitem root_only \<lparr>root = 0\<rparr> ''alpha@cls'' = (Inl AssertionError, root_only)"
  using constructor_and_getitem_errors [of root_only "''doc''" 0 "Other_object" "''alpha@cls''" "\<lparr>root = 0\<rparr>"]
  by (simp add: root_only_def)

section \<open>The text that is printed\<close>

text \<open>
  C9. With the header flag, \<^verbatim>\<open>Print\<close> appends to the stream the declaration
  \<^verbatim>\<open><?xml version="1.0" ?>\<close> and a newline, and then the text of the pretty-printer
  for the facade's element; without the flag it appends the text of the
  pretty-printer only. \<^verbatim>\<open>GetContents\<close> is \<^verbatim>\<open>Print\<close> into an empty buffer, and what
  \<^verbatim>\<open>Print\<close> appends to any stream is what \<^verbatim>\<open>GetContents\<close> returns. Neither returns a
  store: they read the tree and do not change it.
\<close>

theorem Print_GetContents_text:
  "Print W h self oss True =
     oss @ ''<?xml version='' @ [CHR 0x22] @ ''1.0'' @ [CHR 0x22] @ '' ?>'' @ [CHR 0x0A]
         @ W h (root self) \<and>
   Print W h self oss False = oss @ W h (root self) \<and>
   GetContents W h self xml_header = Print W h self [] xml_header \<and>
   Print W h self oss xml_header = oss @ GetContents W h self xml_header"
  by (simp add: Print_def GetContents_def xml_declaration_def)

end
